theory Spec2Isabelle
  imports Main "HOL-Library.Multiset" "HOL-Library.Sublist"
begin

section \<open>Data model of \<^verbatim>\<open>src/huffman.py\<close>\<close>

text \<open>
  Class \<^verbatim>\<open>Node\<close> has the fields \<^verbatim>\<open>freq\<close>, \<^verbatim>\<open>char\<close>, \<^verbatim>\<open>left\<close>, \<^verbatim>\<open>right\<close>. Its constructor is
  called in two shapes only: \<^verbatim>\<open>Node(freq, char)\<close> (lines 44 and 49; no children) and
  \<^verbatim>\<open>Node(left.freq + right.freq, left=left, right=right)\<close> (line 56; no symbol), and no
  field of a node is assigned after construction. So a node is one of two variants.
  Nodes are never mutated, hence a reference to a node is modelled by the node's value.

  A symbol is a Python \<^verbatim>\<open>str\<close> (a key of \<^verbatim>\<open>Dict[str, int]\<close>), a frequency a Python
  \<^verbatim>\<open>int\<close> (unbounded).
\<close>

datatype node =
  Leaf int string
| Internal int node node

fun freq :: "node \<Rightarrow> int" where
  "freq (Leaf f c) = f"
| "freq (Internal f l r) = f"

fun char :: "node \<Rightarrow> string option" where
  "char (Leaf f c) = Some c"
| "char (Internal f l r) = None"

fun left :: "node \<Rightarrow> node option" where
  "left (Leaf f c) = None"
| "left (Internal f l r) = Some l"

fun right :: "node \<Rightarrow> node option" where
  "right (Leaf f c) = None"
| "right (Internal f l r) = Some r"

text \<open>\<^verbatim>\<open>Node.is_leaf\<close>: \<^verbatim>\<open>self.left is None and self.right is None\<close>.\<close>

definition is_leaf :: "node \<Rightarrow> bool" where
  "is_leaf n = (left n = None \<and> right n = None)"

text \<open>\<^verbatim>\<open>Node.__lt__\<close>: only the frequencies are compared.\<close>

definition lt :: "node \<Rightarrow> node \<Rightarrow> bool" where
  "lt self other = (freq self < freq other)"

text \<open>
  Every exception of \<^verbatim>\<open>huffman.py\<close> is a \<^verbatim>\<open>ValueError\<close>; the raise sites differ by their
  message. \<open>InvalidInput\<close> stands for the messages of lines 39, 71 (empty input) and 141
  (bit not \<^verbatim>\<open>'0'\<close> or \<^verbatim>\<open>'1'\<close>), \<open>UnknownSymbol\<close> for line 109 (\<^verbatim>\<open>Zeichen ... ist nicht im
  Huffman-Baum enthalten\<close>), \<open>UninitializedTree\<close> for line 144 (\<^verbatim>\<open>Baum ist nicht
  initialisiert\<close>). The other three are the exceptions the Python runtime itself raises:
  an index out of range, an attribute read on \<^verbatim>\<open>None\<close>, a \<^verbatim>\<open>None\<close> item in \<^verbatim>\<open>''.join\<close>.
\<close>

datatype error =
  InvalidInput
| UnknownSymbol
| UninitializedTree
| IndexError
| AttributeError
| TypeError

text \<open>
  The instance state of class \<^verbatim>\<open>HuffmanTree\<close>. The code table \<^verbatim>\<open>Dict[str, str]\<close> is a map
  from symbols to bit strings (strings over the characters \<^verbatim>\<open>'0'\<close> and \<^verbatim>\<open>'1'\<close>).
\<close>

record huffman_tree =
  root :: "node option"
  code_table :: "string \<rightharpoonup> string"
  current_node :: "node option"

text \<open>\<^verbatim>\<open>HuffmanTree.__init__\<close>\<close>

definition init :: huffman_tree where
  "init = \<lparr>root = None, code_table = Map.empty, current_node = None\<rparr>"


section \<open>The priority queue: \<^verbatim>\<open>heapq\<close> on a Python list\<close>

text \<open>
  \<^verbatim>\<open>heapq\<close> is the module of the Python standard library, which \<^verbatim>\<open>huffman.py\<close> imports;
  the functions below follow CPython's \<^verbatim>\<open>Lib/heapq.py\<close> statement by statement. The items
  are compared with \<^verbatim>\<open><\<close> only, that is with \<^verbatim>\<open>Node.__lt__\<close>. All list indices that
  the functions read or write are in range whenever \<open>pos < length heap\<close>.
\<close>

text \<open>
  The loop of \<^verbatim>\<open>_siftdown(heap, startpos, pos)\<close>, with the final \<^verbatim>\<open>heap[pos] = newitem\<close>.
\<close>

function siftdown_loop :: "node list \<Rightarrow> nat \<Rightarrow> node \<Rightarrow> nat \<Rightarrow> node list" where
  "siftdown_loop heap startpos newitem pos =
     (if pos > startpos then
        let parentpos = (pos - 1) div 2;
            parent = heap ! parentpos
        in if lt newitem parent
           then siftdown_loop (heap[pos := parent]) startpos newitem parentpos
           else heap[pos := newitem]
      else heap[pos := newitem])"
  by pat_completeness auto
termination
  by (relation "measure (\<lambda>(heap, startpos, newitem, pos). pos)") auto

declare siftdown_loop.simps [simp del]

definition siftdown :: "node list \<Rightarrow> nat \<Rightarrow> nat \<Rightarrow> node list" where
  "siftdown heap startpos pos = siftdown_loop heap startpos (heap ! pos) pos"

text \<open>
  The loop of \<^verbatim>\<open>_siftup(heap, pos)\<close>: the smaller child moves up until a leaf position is
  reached; the result is the list and that position.
\<close>

function siftup_loop :: "node list \<Rightarrow> nat \<Rightarrow> node list \<times> nat" where
  "siftup_loop heap pos =
     (let endpos = length heap;
          childpos = 2 * pos + 1
      in if childpos < endpos then
           let rightpos = childpos + 1;
               childpos = (if rightpos < endpos \<and> \<not> lt (heap ! childpos) (heap ! rightpos)
                           then rightpos else childpos)
           in siftup_loop (heap[pos := heap ! childpos]) childpos
         else (heap, pos))"
  by pat_completeness auto
termination
  by (relation "measure (\<lambda>(heap, pos). length heap - pos)") auto

declare siftup_loop.simps [simp del]

definition siftup :: "node list \<Rightarrow> nat \<Rightarrow> node list" where
  "siftup heap pos =
     (let startpos = pos;
          newitem = heap ! pos;
          (heap', pos') = siftup_loop heap pos
      in siftdown (heap'[pos' := newitem]) startpos pos')"

text \<open>\<^verbatim>\<open>heappush(heap, item)\<close>\<close>

definition heappush :: "node list \<Rightarrow> node \<Rightarrow> node list" where
  "heappush heap item = (let heap = heap @ [item] in siftdown heap 0 (length heap - 1))"

text \<open>
  \<^verbatim>\<open>heappop(heap)\<close>: the popped item and the list afterwards; \<^verbatim>\<open>heap.pop()\<close> raises
  \<^verbatim>\<open>IndexError\<close> on the empty list.
\<close>

definition heappop :: "node list \<Rightarrow> error + node \<times> node list" where
  "heappop heap =
     (if heap = [] then Inl IndexError
      else let lastelt = last heap;
               heap = butlast heap
           in if heap \<noteq> [] then
                let returnitem = heap ! 0;
                    heap = heap[0 := lastelt]
                in Inr (returnitem, siftup heap 0)
              else Inr (lastelt, heap))"

text \<open>\<^verbatim>\<open>heapify(x)\<close>: \<^verbatim>\<open>for i in reversed(range(n//2)): _siftup(x, i)\<close>\<close>

definition heapify :: "node list \<Rightarrow> node list" where
  "heapify x = (let n = length x in fold (\<lambda>i x. siftup x i) (rev [0 ..< n div 2]) x)"


section \<open>\<^verbatim>\<open>HuffmanTree\<close>: building the tree and the code table\<close>

text \<open>
  The merge loop of \<^verbatim>\<open>build_from_frequencies\<close> (lines 52 to 57):
  \<^verbatim>\<open>while len(priority_queue) > 1\<close>, pop \<^verbatim>\<open>left\<close>, pop \<^verbatim>\<open>right\<close>, push their parent.
\<close>

function merge_loop :: "node list \<Rightarrow> error + node list" where
  "merge_loop priority_queue =
     (if length priority_queue > 1 then
        (case heappop priority_queue of
           Inl e \<Rightarrow> Inl e
         | Inr (l, priority_queue) \<Rightarrow>
             (case heappop priority_queue of
                Inl e \<Rightarrow> Inl e
              | Inr (r, priority_queue) \<Rightarrow>
                  let parent = Internal (freq l + freq r) l r
                  in merge_loop (heappush priority_queue parent)))
      else Inr priority_queue)"
  by pat_completeness auto
termination
proof -
  have down: "length (siftdown_loop h s n p) = length h" for h s n p
  proof (induction h s n p rule: siftdown_loop.induct)
    case (1 heap startpos newitem pos)
    show ?case
      by (subst siftdown_loop.simps) (simp add: Let_def 1)
  qed
  have up: "length (fst (siftup_loop h p)) = length h" for h p
  proof (induction h p rule: siftup_loop.induct)
    case (1 heap pos)
    show ?case
      by (subst siftup_loop.simps) (simp add: Let_def 1)
  qed
  have siftup: "length (siftup h p) = length h" for h p
    using up [of h p] by (cases "siftup_loop h p") (simp add: siftup_def siftdown_def down Let_def)
  have pop: "length q = length h - 1" if "heappop h = Inr (x, q)" for h x q
    using that by (cases h rule: rev_cases) (auto simp: heappop_def Let_def siftup split: if_splits)
  have push: "length (heappush h x) = Suc (length h)" for h x
    by (simp add: heappush_def Let_def siftdown_def down)
  show ?thesis
    by (relation "measure length") (auto simp: push dest!: pop)
qed

declare merge_loop.simps [simp del]

text \<open>
  \<^verbatim>\<open>_build_code_table\<close>: the inner function \<^verbatim>\<open>traverse(node, code)\<close> writes into
  \<^verbatim>\<open>self.code_table\<close>, which is passed through here. The children of an inner node are
  never \<^verbatim>\<open>None\<close>, so the first branch of the source is taken for an absent root only.
\<close>

fun traverse :: "node \<Rightarrow> string \<Rightarrow> (string \<rightharpoonup> string) \<Rightarrow> (string \<rightharpoonup> string)" where
  "traverse (Leaf f c) code table = table(c \<mapsto> (if code \<noteq> [] then code else ''0''))"
| "traverse (Internal f l r) code table =
     traverse r (code @ ''1'') (traverse l (code @ ''0'') table)"

definition build_code_table :: "huffman_tree \<Rightarrow> huffman_tree" where
  "build_code_table self =
     self\<lparr>code_table := (case root self of
                           None \<Rightarrow> Map.empty
                         | Some n \<Rightarrow> traverse n [] Map.empty)\<rparr>"

text \<open>
  \<^verbatim>\<open>build_from_frequencies\<close>. The dictionary \<^verbatim>\<open>freq_dict\<close> is the list of its items in
  insertion order (the order of \<^verbatim>\<open>freq_dict.items()\<close>); the keys of a dictionary are
  distinct. The result is the raised error or \<^verbatim>\<open>None\<close>, and the instance afterwards.
\<close>

definition build_from_frequencies ::
  "huffman_tree \<Rightarrow> (string \<times> int) list \<Rightarrow> (error + unit) \<times> huffman_tree" where
  "build_from_frequencies self freq_dict =
     (case freq_dict of
        [] \<Rightarrow> (Inl InvalidInput, self)
      | [(c, f)] \<Rightarrow>
          (Inr (), self\<lparr>root := Some (Leaf f c),
                        code_table := [c \<mapsto> ''0''],
                        current_node := Some (Leaf f c)\<rparr>)
      | _ \<Rightarrow>
          let priority_queue = map (\<lambda>(c, f). Leaf f c) freq_dict;
              priority_queue = heapify priority_queue
          in (case merge_loop priority_queue of
                Inl e \<Rightarrow> (Inl e, self)
              | Inr [] \<Rightarrow> (Inl IndexError, self)
              | Inr (n # _) \<Rightarrow>
                  (Inr (), build_code_table (self\<lparr>root := Some n, current_node := Some n\<rparr>))))"

text \<open>
  \<^verbatim>\<open>build_from_text\<close>: \<^verbatim>\<open>freq_dict[char] = freq_dict.get(char, 0) + 1\<close> keeps the place of
  a key that is present and appends a new key.
\<close>

fun count_char :: "(string \<times> int) list \<Rightarrow> string \<Rightarrow> (string \<times> int) list" where
  "count_char [] c = [(c, 0 + 1)]"
| "count_char ((k, v) # freq_dict) c =
     (if k = c then (k, v + 1) # freq_dict else (k, v) # count_char freq_dict c)"

definition build_from_text :: "huffman_tree \<Rightarrow> string \<Rightarrow> (error + unit) \<times> huffman_tree" where
  "build_from_text self text =
     (if text = [] then (Inl InvalidInput, self)
      else build_from_frequencies self (foldl (\<lambda>freq_dict c. count_char freq_dict [c]) [] text))"


section \<open>\<^verbatim>\<open>HuffmanTree\<close>: encoding and decoding\<close>

definition encode :: "huffman_tree \<Rightarrow> string \<Rightarrow> error + string" where
  "encode self c =
     (case code_table self c of
        None \<Rightarrow> Inl UnknownSymbol
      | Some code \<Rightarrow> Inr code)"

text \<open>
  \<^verbatim>\<open>encode_text\<close>: \<^verbatim>\<open>''.join(self.encode(char) for char in text)\<close>; iterating a \<^verbatim>\<open>str\<close>
  gives its characters as strings of length one. The first failing \<^verbatim>\<open>encode\<close> ends it.
\<close>

fun encode_text :: "huffman_tree \<Rightarrow> string \<Rightarrow> error + string" where
  "encode_text self [] = Inr []"
| "encode_text self (c # text) =
     (case encode self [c] of
        Inl e \<Rightarrow> Inl e
      | Inr code \<Rightarrow>
          (case encode_text self text of
             Inl e \<Rightarrow> Inl e
           | Inr rest \<Rightarrow> Inr (code @ rest)))"

definition reset_decoder :: "huffman_tree \<Rightarrow> huffman_tree" where
  "reset_decoder self = self\<lparr>current_node := root self\<rparr>"

text \<open>
  \<^verbatim>\<open>decode(bit)\<close>: the raised error or the returned pair, and the instance afterwards.
  Reading \<^verbatim>\<open>.left\<close> of a leaf gives \<^verbatim>\<open>None\<close>, which is stored in \<^verbatim>\<open>self.current_node\<close>
  before \<^verbatim>\<open>self.current_node.is_leaf()\<close> raises.
\<close>

definition decode ::
  "huffman_tree \<Rightarrow> string \<Rightarrow> (error + bool \<times> string option) \<times> huffman_tree" where
  "decode self bit' =
     (if bit' \<notin> {''0'', ''1''} then (Inl InvalidInput, self)
      else case root self of
        None \<Rightarrow> (Inl UninitializedTree, self)
      | Some rt \<Rightarrow>
          let self = (if current_node self = None then self\<lparr>current_node := Some rt\<rparr> else self)
          in if is_leaf rt then (Inr (True, char rt), self)
             else
               let nxt = (case current_node self of
                            None \<Rightarrow> None
                          | Some cur \<Rightarrow> if bit' = ''0'' then left cur else right cur);
                   self = self\<lparr>current_node := nxt\<rparr>
               in (case nxt of
                     None \<Rightarrow> (Inl AttributeError, self)
                   | Some n \<Rightarrow>
                       if is_leaf n
                       then (Inr (True, char n), self\<lparr>current_node := Some rt\<rparr>)
                       else (Inr (False, None), self)))"

text \<open>The loop of \<^verbatim>\<open>decode_text\<close> (lines 178 to 181), with the list \<^verbatim>\<open>result\<close>.\<close>

fun decode_loop ::
  "huffman_tree \<Rightarrow> string \<Rightarrow> string option list \<Rightarrow> (error + string option list) \<times> huffman_tree"
  where
  "decode_loop self [] result = (Inr result, self)"
| "decode_loop self (bit' # bitstring) result =
     (case decode self [bit'] of
        (Inl e, self) \<Rightarrow> (Inl e, self)
      | (Inr (ok, c), self) \<Rightarrow>
          decode_loop self bitstring (if ok then result @ [c] else result))"

text \<open>\<^verbatim>\<open>''.join(result)\<close>: an item that is \<^verbatim>\<open>None\<close> raises \<^verbatim>\<open>TypeError\<close>.\<close>

fun join :: "string option list \<Rightarrow> error + string" where
  "join [] = Inr []"
| "join (None # result) = Inl TypeError"
| "join (Some s # result) =
     (case join result of
        Inl e \<Rightarrow> Inl e
      | Inr rest \<Rightarrow> Inr (s @ rest))"

definition decode_text :: "huffman_tree \<Rightarrow> string \<Rightarrow> (error + string) \<times> huffman_tree" where
  "decode_text self bitstring =
     (let self = reset_decoder self
      in case decode_loop self bitstring [] of
           (Inl e, self) \<Rightarrow> (Inl e, self)
         | (Inr result, self) \<Rightarrow> (join result, self))"


section \<open>Decoding bit by bit, as a caller does\<close>

text \<open>
  A caller of the single-step decoder (as \<^verbatim>\<open>main\<close> of \<^verbatim>\<open>huffman-example.py\<close>, lines 29 to 39)
  calls \<^verbatim>\<open>decode\<close> once for every bit, in order, and sees the result of every call; a call
  that raises ends the feeding. \<open>feed_bits\<close> gives the results of the calls and the
  instance afterwards, \<open>complete_results\<close> the symbols of the results \<open>(True, c)\<close>,
  \<open>first_error\<close> the raised error.
\<close>

fun feed_bits ::
  "huffman_tree \<Rightarrow> string \<Rightarrow> (error + bool \<times> string option) list \<times> huffman_tree" where
  "feed_bits tree [] = ([], tree)"
| "feed_bits tree (bit' # encoded) =
     (case decode tree [bit'] of
        (Inl e, tree) \<Rightarrow> ([Inl e], tree)
      | (Inr res, tree) \<Rightarrow>
          (case feed_bits tree encoded of
             (results, tree) \<Rightarrow> (Inr res # results, tree)))"

fun complete_results :: "(error + bool \<times> string option) list \<Rightarrow> string option list" where
  "complete_results [] = []"
| "complete_results (Inr (True, c) # results) = c # complete_results results"
| "complete_results (_ # results) = complete_results results"

fun first_error :: "(error + bool \<times> string option) list \<Rightarrow> error option" where
  "first_error [] = None"
| "first_error (Inl e # results) = Some e"
| "first_error (Inr res # results) = first_error results"


section \<open>The code table as a dictionary object\<close>

text \<open>
  \<^verbatim>\<open>get_code_table\<close> returns \<^verbatim>\<open>self.code_table.copy()\<close>. What a caller can do to the instance
  through the returned dictionary depends on the identity of dictionary objects, so here
  the dictionaries live in a store: the list of the contents of all dictionary objects; a
  reference is an index into it. The instance holds a reference in \<^verbatim>\<open>self.code_table\<close>;
  the field \<open>code_table\<close> of \<open>huffman_tree\<close> above is the content of the object it refers to.
\<close>

record object_state =
  dicts :: "(string \<rightharpoonup> string) list"
  self_code_table :: nat
  self_root :: "node option"
  self_current_node :: "node option"

definition view :: "object_state \<Rightarrow> huffman_tree" where
  "view s = \<lparr>root = self_root s,
             code_table = dicts s ! self_code_table s,
             current_node = self_current_node s\<rparr>"

text \<open>
  \<^verbatim>\<open>get_code_table\<close>: \<^verbatim>\<open>dict.copy()\<close> makes a new dictionary object with the items of the
  old one; the result is the reference to it.
\<close>

definition get_code_table :: "object_state \<Rightarrow> nat \<times> object_state" where
  "get_code_table s =
     (length (dicts s), s\<lparr>dicts := dicts s @ [dicts s ! self_code_table s]\<rparr>)"

text \<open>
  What a caller can do to a dictionary it holds (\<^verbatim>\<open>d[k] = v\<close>, \<^verbatim>\<open>del d[k]\<close>, \<^verbatim>\<open>d.clear()\<close>,
  \<^verbatim>\<open>d.update(...)\<close>, any sequence of these) changes the content of that one object.
\<close>

definition dict_mutate ::
  "object_state \<Rightarrow> nat \<Rightarrow> ((string \<rightharpoonup> string) \<Rightarrow> (string \<rightharpoonup> string)) \<Rightarrow> object_state" where
  "dict_mutate s r g = s\<lparr>dicts := (dicts s)[r := g (dicts s ! r)]\<rparr>"

text \<open>A new instance for a state of the tree: its code table is the one dictionary.\<close>

definition new_object :: "huffman_tree \<Rightarrow> object_state" where
  "new_object tree =
     \<lparr>dicts = [code_table tree], self_code_table = 0,
      self_root = root tree, self_current_node = current_node tree\<rparr>"


section \<open>Functions for stating the properties\<close>

text \<open>The leaves of a tree from left to right, each as an item (symbol, count).\<close>

fun leaves :: "node \<Rightarrow> (string \<times> int) list" where
  "leaves (Leaf f c) = [(c, f)]"
| "leaves (Internal f l r) = leaves l @ leaves r"

text \<open>Every inner node holds the sum of the frequencies of its two children.\<close>

fun consistent :: "node \<Rightarrow> bool" where
  "consistent (Leaf f c) = True"
| "consistent (Internal f l r) = (f = freq l + freq r \<and> consistent l \<and> consistent r)"

text \<open>
  The path from the root to each leaf, \<^verbatim>\<open>'0'\<close> for a step to the left child and \<^verbatim>\<open>'1'\<close>
  for a step to the right child.
\<close>

fun paths :: "node \<Rightarrow> (string \<times> string) list" where
  "paths (Leaf f c) = [(c, [])]"
| "paths (Internal f l r) =
     map (\<lambda>(c, p). (c, CHR ''0'' # p)) (paths l) @ map (\<lambda>(c, p). (c, CHR ''1'' # p)) (paths r)"


section \<open>The priority queue keeps its items\<close>

lemma mset_update_swap:
  assumes "i < length xs" "j < length xs" "i \<noteq> j"
  shows "mset (xs[i := a, j := b]) = mset (xs[i := b, j := a])"
proof -
  let ?ys = "xs[i := a, j := b]"
  have "mset (?ys[j := ?ys ! i, i := ?ys ! j]) = mset ?ys"
    using assms by (intro mset_swap) simp_all
  moreover have "?ys[j := ?ys ! i, i := ?ys ! j] = xs[i := b, j := a]"
    using assms by (simp add: list_update_swap)
  ultimately show ?thesis by simp
qed

lemma list_update_other_id: "i \<noteq> j \<Longrightarrow> xs[i := a, j := xs ! j] = xs[i := a]"
  by (metis list_update_id nth_list_update_neq)

lemma mset_siftdown_loop:
  "pos < length heap \<Longrightarrow>
   mset (siftdown_loop heap startpos newitem pos) = mset (heap[pos := newitem])"
proof (induction heap startpos newitem pos rule: siftdown_loop.induct)
  case (1 heap startpos newitem pos)
  let ?pp = "(pos - 1) div 2"
  show ?case
  proof (cases "startpos < pos \<and> lt newitem (heap ! ?pp)")
    case True
    then have pp: "?pp < pos" by arith
    have "mset (siftdown_loop heap startpos newitem pos) =
          mset (siftdown_loop (heap[pos := heap ! ?pp]) startpos newitem ?pp)"
      using True by (subst siftdown_loop.simps) (simp add: Let_def)
    also have "\<dots> = mset (heap[pos := heap ! ?pp, ?pp := newitem])"
      using True pp "1.prems" by (intro "1.IH") simp_all
    also have "\<dots> = mset (heap[pos := newitem, ?pp := heap ! ?pp])"
      using pp "1.prems" by (intro mset_update_swap) simp_all
    also have "\<dots> = mset (heap[pos := newitem])"
      using pp by (simp add: list_update_other_id)
    finally show ?thesis .
  next
    case False
    then show ?thesis
      by (subst siftdown_loop.simps) (auto simp: Let_def)
  qed
qed

lemma mset_siftdown:
  "pos < length heap \<Longrightarrow> mset (siftdown heap startpos pos) = mset heap"
  by (simp add: siftdown_def mset_siftdown_loop)

lemma siftup_loop_props:
  "pos < length heap \<Longrightarrow> siftup_loop heap pos = (heap', pos') \<Longrightarrow>
   pos' < length heap' \<and> mset (heap'[pos' := x]) = mset (heap[pos := x])"
proof (induction heap pos arbitrary: heap' pos' rule: siftup_loop.induct)
  case (1 heap pos)
  show ?case
  proof (cases "2 * pos + 1 < length heap")
    case True
    define cp where "cp = (if 2 * pos + 1 + 1 < length heap \<and>
        \<not> lt (heap ! (2 * pos + 1)) (heap ! (2 * pos + 1 + 1)) then 2 * pos + 1 + 1 else 2 * pos + 1)"
    have cp: "cp < length heap" "pos < cp"
      using True by (auto simp: cp_def)
    have eq: "siftup_loop heap pos = siftup_loop (heap[pos := heap ! cp]) cp"
      using True by (subst siftup_loop.simps) (simp add: Let_def cp_def)
    with "1.prems" have res: "siftup_loop (heap[pos := heap ! cp]) cp = (heap', pos')"
      by simp
    have ih: "pos' < length heap' \<and>
        mset (heap'[pos' := x]) = mset (heap[pos := heap ! cp, cp := x])"
      using "1.IH" [OF refl refl _ refl refl, of heap' pos'] True cp res by (simp add: cp_def)
    have "mset (heap[pos := heap ! cp, cp := x]) = mset (heap[pos := x, cp := heap ! cp])"
      using cp "1.prems" by (intro mset_update_swap) simp_all
    also have "\<dots> = mset (heap[pos := x])"
      using cp by (simp add: list_update_other_id)
    finally show ?thesis using ih by simp
  next
    case False
    then have "siftup_loop heap pos = (heap, pos)"
      by (subst siftup_loop.simps) (simp add: Let_def)
    with "1.prems" show ?thesis by auto
  qed
qed

lemma mset_siftup: "pos < length heap \<Longrightarrow> mset (siftup heap pos) = mset heap"
proof -
  assume pos: "pos < length heap"
  obtain heap' pos' where res: "siftup_loop heap pos = (heap', pos')"
    by (cases "siftup_loop heap pos")
  from siftup_loop_props [OF pos res, of "heap ! pos"]
  have "pos' < length heap'" "mset (heap'[pos' := heap ! pos]) = mset heap"
    by simp_all
  then show ?thesis
    by (simp add: siftup_def res Let_def mset_siftdown)
qed

lemma length_siftup: "pos < length heap \<Longrightarrow> length (siftup heap pos) = length heap"
  using mset_siftup [of pos heap] by (metis size_mset)

lemma mset_fold_siftup:
  "\<forall>i\<in>set is. i < length x \<Longrightarrow> mset (fold (\<lambda>i x. siftup x i) is x) = mset x"
proof (induction "is" arbitrary: x)
  case Nil
  then show ?case by simp
next
  case (Cons i "is")
  then show ?case by (simp add: mset_siftup length_siftup)
qed

lemma mset_heapify: "mset (heapify x) = mset x"
  unfolding heapify_def Let_def by (rule mset_fold_siftup) auto

lemma mset_heappush: "mset (heappush heap item) = add_mset item (mset heap)"
  by (simp add: heappush_def Let_def mset_siftdown)

lemma heappop_props:
  assumes "heap \<noteq> []"
  obtains item heap' where "heappop heap = Inr (item, heap')"
    and "mset heap = add_mset item (mset heap')"
proof (cases heap rule: rev_cases)
  case Nil
  with assms show ?thesis by simp
next
  case (snoc ys y)
  show ?thesis
  proof (cases ys)
    case Nil
    with snoc that show ?thesis by (simp add: heappop_def)
  next
    case (Cons z zs)
    have "heappop heap = Inr (z, siftup (y # zs) 0)"
      using snoc Cons by (simp add: heappop_def Let_def)
    moreover have "mset (siftup (y # zs) 0) = mset (y # zs)"
      by (rule mset_siftup) simp
    ultimately show ?thesis using snoc Cons that by simp
  qed
qed


section \<open>The result of \<^verbatim>\<open>build_from_frequencies\<close>\<close>

lemma merge_loop_result:
  assumes "pq \<noteq> []"
  shows "\<exists>n. merge_loop pq = Inr [n] \<and>
             mset (leaves n) = (\<Sum>m\<in>#mset pq. mset (leaves m)) \<and>
             ((\<forall>m\<in>#mset pq. consistent m) \<longrightarrow> consistent n)"
  using assms
proof (induction "length pq" arbitrary: pq rule: less_induct)
  case less
  show ?case
  proof (cases "1 < length pq")
    case True
    from less.prems obtain l q1 where
      pop1: "heappop pq = Inr (l, q1)" and m1: "mset pq = add_mset l (mset q1)"
      by (rule heappop_props)
    from m1 have len1: "length pq = Suc (length q1)"
      by (metis size_add_mset size_mset)
    with True have "q1 \<noteq> []" by auto
    then obtain r q2 where
      pop2: "heappop q1 = Inr (r, q2)" and m2: "mset q1 = add_mset r (mset q2)"
      by (rule heappop_props)
    from m2 have len2: "length q1 = Suc (length q2)"
      by (metis size_add_mset size_mset)
    define parent where "parent = Internal (freq l + freq r) l r"
    define q3 where "q3 = heappush q2 parent"
    have m3: "mset q3 = add_mset parent (mset q2)"
      by (simp add: q3_def mset_heappush)
    then have len3: "length q3 = Suc (length q2)"
      by (metis size_add_mset size_mset)
    have step: "merge_loop pq = merge_loop q3"
      using True pop1 pop2
      by (subst merge_loop.simps) (simp add: Let_def parent_def q3_def)
    have "length q3 < length pq" "q3 \<noteq> []"
      using len1 len2 len3 by auto
    from less.hyps [OF this] obtain n where n: "merge_loop q3 = Inr [n]"
      "mset (leaves n) = (\<Sum>m\<in>#mset q3. mset (leaves m))"
      "(\<forall>m\<in>#mset q3. consistent m) \<longrightarrow> consistent n"
      by blast
    have "(\<Sum>m\<in>#mset q3. mset (leaves m)) = (\<Sum>m\<in>#mset pq. mset (leaves m))"
      by (simp add: m1 m2 m3 parent_def)
    moreover have "(\<forall>m\<in>#mset pq. consistent m) \<longrightarrow> (\<forall>m\<in>#mset q3. consistent m)"
      by (simp add: m1 m2 m3 parent_def)
    ultimately show ?thesis
      using n step by auto
  next
    case False
    with less.prems obtain n where pq: "pq = [n]"
      by (cases pq) auto
    then have "merge_loop pq = Inr [n]"
      by (subst merge_loop.simps) simp
    with pq show ?thesis by simp
  qed
qed

lemma leaves_of_items: "(\<Sum>m\<in>#mset (map (\<lambda>(c, f). Leaf f c) fd). mset (leaves m)) = mset fd"
  by (induction fd) auto

lemma build_single:
  "build_from_frequencies self [(c, f)] =
     (Inr (), self\<lparr>root := Some (Leaf f c), code_table := [c \<mapsto> ''0''],
                   current_node := Some (Leaf f c)\<rparr>)"
  by (simp add: build_from_frequencies_def)

lemma build_general:
  assumes "2 \<le> length fd"
  shows "\<exists>n. build_from_frequencies self fd =
               (Inr (), self\<lparr>root := Some n, current_node := Some n,
                             code_table := traverse n [] Map.empty\<rparr>) \<and>
             mset (leaves n) = mset fd \<and> consistent n"
proof -
  define pq where "pq = heapify (map (\<lambda>(c, f). Leaf f c) fd)"
  have m: "mset pq = mset (map (\<lambda>(c, f). Leaf f c) fd)"
    by (simp add: pq_def mset_heapify)
  then have "length pq = length fd"
    by (metis length_map size_mset)
  with assms have "pq \<noteq> []" by auto
  from merge_loop_result [OF this] obtain n where n: "merge_loop pq = Inr [n]"
    "mset (leaves n) = (\<Sum>m\<in>#mset pq. mset (leaves m))"
    "(\<forall>m\<in>#mset pq. consistent m) \<longrightarrow> consistent n"
    by blast
  have "mset (leaves n) = mset fd"
    using n(2) by (simp only: m leaves_of_items)
  moreover have "\<forall>m\<in>#mset pq. consistent m"
    by (auto simp: m)
  moreover from assms obtain a b fd' where "fd = a # b # fd'"
    by (cases fd; cases "tl fd") auto
  then have "build_from_frequencies self fd =
      (Inr (), self\<lparr>root := Some n, current_node := Some n,
                    code_table := traverse n [] Map.empty\<rparr>)"
    using n(1) unfolding pq_def
    by (simp add: build_from_frequencies_def build_code_table_def Let_def split: prod.splits)
  ultimately show ?thesis using n(3) by blast
qed

lemma freq_consistent: "consistent n \<Longrightarrow> freq n = sum_list (map snd (leaves n))"
  by (induction n) auto

lemma sum_list_mset_cong:
  fixes xs ys :: "(string \<times> int) list"
  assumes "mset xs = mset ys"
  shows "sum_list (map snd xs) = sum_list (map snd ys)"
proof -
  have "sum_mset (image_mset snd (mset xs)) = sum_mset (image_mset snd (mset ys))"
    using assms by simp
  then show ?thesis
    by (simp only: mset_map [symmetric] sum_mset_sum_list)
qed


section \<open>The code table and the paths of the tree\<close>

lemma fst_paths: "map fst (paths n) = map fst (leaves n)"
  by (induction n) (auto simp: case_prod_unfold comp_def)

lemma map_of_paths_Internal:
  "map_of (paths (Internal f l r)) x =
     (case map_of (paths l) x of
        Some p \<Rightarrow> Some (CHR ''0'' # p)
      | None \<Rightarrow> map_option ((#) CHR ''1'') (map_of (paths r) x))"
proof -
  have a: "map_of (map (\<lambda>(c, p). (c, b # p)) ps) x = map_option ((#) b) (map_of ps x)"
    for b and ps :: "(string \<times> string) list"
    by (induction ps) auto
  show ?thesis
    by (simp add: map_add_def a split: option.splits)
qed

lemma traverse_lookup:
  "distinct (map fst (paths n)) \<Longrightarrow>
   traverse n code table x =
     (case map_of (paths n) x of
        None \<Rightarrow> table x
      | Some p \<Rightarrow> Some (if code @ p \<noteq> [] then code @ p else ''0''))"
proof (induction n arbitrary: code table)
  case (Leaf f c)
  show ?case by simp
next
  case (Internal f l r)
  from Internal.prems have d: "distinct (map fst (paths l))" "distinct (map fst (paths r))"
    and disj: "fst ` set (paths l) \<inter> fst ` set (paths r) = {}"
    by (auto simp: case_prod_unfold image_image comp_def)
  have "map_of (paths l) x \<noteq> None \<Longrightarrow> map_of (paths r) x = None"
    using disj by (auto simp: map_of_eq_None_iff)
  then show ?case
    by (simp only: traverse.simps Internal.IH(1) [OF d(1)] Internal.IH(2) [OF d(2)]
        map_of_paths_Internal)
       (auto split: option.splits)
qed

lemma paths_nonempty: "(c, p) \<in> set (paths (Internal f l r)) \<Longrightarrow> p \<noteq> []"
  by auto

lemma paths_bits: "(c, p) \<in> set (paths n) \<Longrightarrow> set p \<subseteq> {CHR ''0'', CHR ''1''}"
  by (induction n arbitrary: p) fastforce+

lemma paths_prefix:
  "(c, p) \<in> set (paths n) \<Longrightarrow> (c', p') \<in> set (paths n) \<Longrightarrow> prefix p p' \<Longrightarrow>
   c = c' \<and> p = p'"
  by (induction n arbitrary: p p') auto

lemma leaves_two: "2 \<le> length (leaves n) \<Longrightarrow> \<exists>f l r. n = Internal f l r"
  by (cases n) auto

lemma table_Internal:
  assumes "distinct (map fst (paths (Internal f l r)))"
  shows "traverse (Internal f l r) [] Map.empty = map_of (paths (Internal f l r))"
proof
  fix x
  define n where "n = Internal f l r"
  have ne: "p \<noteq> []" if "map_of (paths n) x = Some p" for p
    using map_of_SomeD [OF that] paths_nonempty unfolding n_def by blast
  have "traverse n [] Map.empty x =
      (case map_of (paths n) x of
         None \<Rightarrow> None
       | Some p \<Rightarrow> Some (if [] @ p \<noteq> [] then [] @ p else ''0''))"
    using assms unfolding n_def by (rule traverse_lookup)
  also have "\<dots> = map_of (paths n) x"
    using ne by (cases "map_of (paths n) x") auto
  finally show "traverse (Internal f l r) [] Map.empty x = map_of (paths (Internal f l r)) x"
    unfolding n_def .
qed

text \<open>The whole effect of building from at least two entries.\<close>

lemma build_two:
  assumes "distinct (map fst fd)" "2 \<le> length fd"
  shows "\<exists>f l r. build_from_frequencies self fd =
           (Inr (), self\<lparr>root := Some (Internal f l r), current_node := Some (Internal f l r),
                         code_table := map_of (paths (Internal f l r))\<rparr>) \<and>
           mset (leaves (Internal f l r)) = mset fd \<and>
           distinct (map fst (paths (Internal f l r)))"
proof -
  from build_general [OF assms(2), of self] obtain n where
    b: "build_from_frequencies self fd =
          (Inr (), self\<lparr>root := Some n, current_node := Some n,
                        code_table := traverse n [] Map.empty\<rparr>)"
    and l: "mset (leaves n) = mset fd"
    by blast
  from l have "length (leaves n) = length fd"
    by (metis size_mset)
  with assms(2) obtain f l' r where n: "n = Internal f l' r"
    using leaves_two by metis
  have "mset (map fst (leaves n)) = mset (map fst fd)"
    using l by (metis mset_map)
  then have "distinct (map fst (leaves n))"
    using assms(1) by (metis mset_eq_imp_distinct_iff)
  then have d: "distinct (map fst (paths n))"
    by (simp only: fst_paths)
  show ?thesis
    using b l d table_Internal [of f l' r] unfolding n by auto
qed


section \<open>The decoder follows the paths of the tree\<close>

lemma is_leaf_simps [simp]: "is_leaf (Leaf f c)" "\<not> is_leaf (Internal f l r)"
  by (simp_all add: is_leaf_def)

lemma decode_inner:
  assumes "root st = Some rt" "\<not> is_leaf rt" "current_node st = Some (Internal f l r)"
    and "b = CHR ''0'' \<or> b = CHR ''1''"
  shows "decode st [b] =
     (let n = (if b = CHR ''0'' then l else r)
      in if is_leaf n then (Inr (True, char n), st\<lparr>current_node := Some rt\<rparr>)
         else (Inr (False, None), st\<lparr>current_node := Some n\<rparr>))"
  using assms by (auto simp: decode_def Let_def)

lemma paths_Leaf: "(c, p) \<in> set (paths n) \<Longrightarrow> is_leaf n \<Longrightarrow> n = Leaf (freq n) c \<and> p = []"
  by (cases n) auto

lemma paths_inner: "(c, p) \<in> set (paths n) \<Longrightarrow> \<not> is_leaf n \<Longrightarrow> p \<noteq> []"
  by (cases n) auto

lemma decode_loop_path:
  assumes "root st = Some rt" "\<not> is_leaf rt"
  shows "(c, p) \<in> set (paths cur) \<Longrightarrow> p \<noteq> [] \<Longrightarrow> current_node st = Some cur \<Longrightarrow>
         decode_loop st (p @ rest) result =
         decode_loop (st\<lparr>current_node := Some rt\<rparr>) rest (result @ [Some c])"
  using assms
proof (induction cur arbitrary: p st)
  case (Leaf f c')
  then show ?case by simp
next
  case (Internal f l r)
  from Internal.prems(1) obtain b p' n where
    p: "p = b # p'" and b: "b = CHR ''0'' \<or> b = CHR ''1''"
    and n: "n = (if b = CHR ''0'' then l else r)" and m: "(c, p') \<in> set (paths n)"
    by auto
  have dec: "decode st [b] =
      (if is_leaf n then (Inr (True, char n), st\<lparr>current_node := Some rt\<rparr>)
       else (Inr (False, None), st\<lparr>current_node := Some n\<rparr>))"
    using decode_inner [OF Internal.prems(4,5,3) b] n by (simp add: Let_def)
  show ?case
  proof (cases "is_leaf n")
    case True
    with m have "n = Leaf (freq n) c" "p' = []"
      using paths_Leaf by blast+
    then have "char n = Some c" by (metis char.simps(1))
    with dec True \<open>p' = []\<close> show ?thesis
      by (simp add: p)
  next
    case False
    with m have ne: "p' \<noteq> []" by (rule paths_inner)
    let ?st = "st\<lparr>current_node := Some n\<rparr>"
    have ih: "decode_loop ?st (p' @ rest) result =
        decode_loop (?st\<lparr>current_node := Some rt\<rparr>) rest (result @ [Some c])"
    proof (cases "b = CHR ''0''")
      case True
      with n have "n = l" by simp
      with m ne Internal.prems(4,5) show ?thesis
        by (intro Internal.IH(1)) simp_all
    next
      case False
      with n have "n = r" by simp
      with m ne Internal.prems(4,5) show ?thesis
        by (intro Internal.IH(2)) simp_all
    qed
    from dec False have "decode_loop st (p @ rest) result = decode_loop ?st (p' @ rest) result"
      by (simp add: p)
    with ih show ?thesis by simp
  qed
qed

lemma decode_loop_strict_prefix:
  assumes "root st = Some rt" "\<not> is_leaf rt"
  shows "(c, q) \<in> set (paths cur) \<Longrightarrow> strict_prefix p q \<Longrightarrow> current_node st = Some cur \<Longrightarrow>
         fst (decode_loop st p result) = Inr result"
  using assms
proof (induction cur arbitrary: p q st)
  case (Leaf f c')
  then show ?case by simp
next
  case (Internal f l r)
  show ?case
  proof (cases p)
    case Nil
    then show ?thesis by simp
  next
    case (Cons b p')
    with Internal.prems(1,2) obtain q' n where
      q: "q = b # q'" and b: "b = CHR ''0'' \<or> b = CHR ''1''"
      and n: "n = (if b = CHR ''0'' then l else r)" and m: "(c, q') \<in> set (paths n)"
      and sp: "strict_prefix p' q'"
      by auto
    have dec: "decode st [b] =
        (if is_leaf n then (Inr (True, char n), st\<lparr>current_node := Some rt\<rparr>)
         else (Inr (False, None), st\<lparr>current_node := Some n\<rparr>))"
      using decode_inner [OF Internal.prems(4,5,3) b] n by (simp add: Let_def)
    have nl: "\<not> is_leaf n"
      using m sp paths_Leaf by fastforce
    let ?st = "st\<lparr>current_node := Some n\<rparr>"
    have ih: "fst (decode_loop ?st p' result) = Inr result"
    proof (cases "b = CHR ''0''")
      case True
      with n have "n = l" by simp
      with m sp Internal.prems(4,5) show ?thesis
        by (intro Internal.IH(1) [of q']) simp_all
    next
      case False
      with n have "n = r" by simp
      with m sp Internal.prems(4,5) show ?thesis
        by (intro Internal.IH(2) [of q']) simp_all
    qed
    from dec nl ih show ?thesis
      by (simp add: Cons)
  qed
qed

text \<open>
  A state decodes the code of \<open>k\<close> when the code table has a code for \<open>k\<close> and the loop of
  \<^verbatim>\<open>decode_text\<close>, started in this state, consumes that code, appends \<open>k\<close>, and is back in
  the same state.
\<close>

lemma decode_loop_codes:
  assumes "\<And>k. k \<in> set ks \<Longrightarrow> \<exists>code. code_table st k = Some code \<and>
             (\<forall>rest result. decode_loop st (code @ rest) result =
                             decode_loop st rest (result @ [Some k]))"
  shows "\<exists>codes. map (code_table st) ks = map Some codes \<and>
           (\<forall>rest result. decode_loop st (concat codes @ rest) result =
                           decode_loop st rest (result @ map Some ks))"
  using assms
proof (induction ks)
  case Nil
  show ?case by simp
next
  case (Cons k ks)
  from Cons.prems [of k] obtain code where
    code: "code_table st k = Some code"
    "\<And>rest result. decode_loop st (code @ rest) result = decode_loop st rest (result @ [Some k])"
    by auto
  from Cons.IH Cons.prems obtain codes where
    codes: "map (code_table st) ks = map Some codes"
    "\<And>rest result. decode_loop st (concat codes @ rest) result =
        decode_loop st rest (result @ map Some ks)"
    by auto
  have "map (code_table st) (k # ks) = map Some (code # codes)"
    using code(1) codes(1) by simp
  moreover have "decode_loop st (concat (code # codes) @ rest) result =
      decode_loop st rest (result @ map Some (k # ks))" for rest result
    by (simp add: code(2) codes(2))
  ultimately show ?case by blast
qed

lemma encode_text_codes:
  "map (code_table st) (map (\<lambda>c. [c]) text) = map Some codes \<Longrightarrow>
   encode_text st text = Inr (concat codes)"
  by (induction "text" arbitrary: codes) (auto simp: encode_def)

lemma join_Some: "join (map Some ks) = Inr (concat ks)"
  by (induction ks) auto

lemma concat_singletons: "concat (map (\<lambda>c. [c]) text) = text"
  by (induction "text") auto


section \<open>Decoding with a built tree\<close>

lemma built_decodes:
  assumes "distinct (map fst fd)" "fd \<noteq> []" "k \<in> fst ` set fd"
  shows "\<exists>code. code_table (snd (build_from_frequencies self fd)) k = Some code \<and>
           (\<forall>rest result.
              decode_loop (snd (build_from_frequencies self fd)) (code @ rest) result =
              decode_loop (snd (build_from_frequencies self fd)) rest (result @ [Some k])) \<and>
           (\<forall>p result. strict_prefix p code \<longrightarrow>
              fst (decode_loop (snd (build_from_frequencies self fd)) p result) = Inr result)"
proof (cases "2 \<le> length fd")
  case True
  from build_two [OF assms(1) this, of self] obtain f l r where
    b: "build_from_frequencies self fd =
          (Inr (), self\<lparr>root := Some (Internal f l r), current_node := Some (Internal f l r),
                        code_table := map_of (paths (Internal f l r))\<rparr>)"
    and lv: "mset (leaves (Internal f l r)) = mset fd"
    by blast
  define n where "n = Internal f l r"
  define st where "st = self\<lparr>root := Some n, current_node := Some n,
                               code_table := map_of (paths n)\<rparr>"
  have st: "snd (build_from_frequencies self fd) = st"
    by (simp add: b st_def n_def)
  have sel: "root st = Some n" "current_node st = Some n" "\<not> is_leaf n"
    "st\<lparr>current_node := Some n\<rparr> = st"
    by (simp_all add: st_def n_def)
  have "set (leaves n) = set fd"
    using lv unfolding n_def by (rule mset_eq_setD)
  then have "fst ` set (paths n) = fst ` set fd"
    by (metis fst_paths list.set_map)
  with assms(3) obtain code where code: "map_of (paths n) k = Some code"
    by (metis domD dom_map_of_conv_image_fst)
  then have m: "(k, code) \<in> set (paths n)"
    by (rule map_of_SomeD)
  then have ne: "code \<noteq> []"
    using sel(3) by (rule paths_inner)
  have "decode_loop st (code @ rest) result = decode_loop st rest (result @ [Some k])"
    for rest result
    using decode_loop_path [OF sel(1) sel(3) m ne sel(2), of rest result] by (simp only: sel(4))
  moreover have "fst (decode_loop st p result) = Inr result" if "strict_prefix p code"
    for p result
    using sel(1) sel(3) m that sel(2) by (rule decode_loop_strict_prefix)
  moreover have "code_table st k = Some code"
    using code by (simp add: st_def)
  ultimately show ?thesis
    unfolding st by blast
next
  case False
  from assms(2) have "length fd \<noteq> 0" by simp
  with False have "length fd = Suc 0" by linarith
  then obtain c f where fd: "fd = [(c, f)]"
    by (cases fd) auto
  define st where "st = self\<lparr>root := Some (Leaf f c), code_table := [c \<mapsto> ''0''],
                               current_node := Some (Leaf f c)\<rparr>"
  have st: "snd (build_from_frequencies self fd) = st"
    by (simp add: fd build_single st_def)
  from assms(3) have k: "k = c" by (simp add: fd)
  have dec: "decode st ''0'' = (Inr (True, Some c), st)"
    by (simp add: decode_def st_def)
  have "decode_loop st (''0'' @ rest) result = decode_loop st rest (result @ [Some k])"
    for rest result
    by (simp add: dec k)
  moreover have "fst (decode_loop st p result) = Inr result" if "strict_prefix p ''0''"
    for p result
    using that by (cases p) auto
  moreover have "code_table st k = Some ''0''"
    by (simp add: st_def k)
  ultimately show ?thesis
    unfolding st by blast
qed

lemma decode_text_any_cursor:
  "decode_text (st\<lparr>current_node := cur\<rparr>) bitstring = decode_text st bitstring"
  by (simp add: decode_text_def reset_decoder_def)

lemma reset_built:
  assumes "fd \<noteq> []"
  shows "reset_decoder (snd (build_from_frequencies self fd)) = snd (build_from_frequencies self fd)"
proof (cases "2 \<le> length fd")
  case True
  from build_general [OF this, of self] show ?thesis
    by (auto simp: reset_decoder_def)
next
  case False
  from assms have "length fd \<noteq> 0" by simp
  with False have "length fd = Suc 0" by linarith
  then obtain c f where fd: "fd = [(c, f)]"
    by (cases fd) auto
  show ?thesis
    by (simp add: fd build_single reset_decoder_def)
qed

lemma built_decode_text:
  assumes "distinct (map fst fd)" "fd \<noteq> []" "set ks \<subseteq> fst ` set fd"
  shows "\<exists>codes. map (code_table (snd (build_from_frequencies self fd))) ks = map Some codes \<and>
           (\<forall>rest. fst (decode_text (snd (build_from_frequencies self fd)) (concat codes @ rest)) =
              (case decode_loop (snd (build_from_frequencies self fd)) rest (map Some ks) of
                 (Inl e, s) \<Rightarrow> Inl e
               | (Inr result, s) \<Rightarrow> join result))"
proof -
  define st where "st = snd (build_from_frequencies self fd)"
  have r: "reset_decoder st = st"
    unfolding st_def using assms(2) by (rule reset_built)
  have "\<exists>code. code_table st k = Some code \<and>
          (\<forall>rest result. decode_loop st (code @ rest) result =
                          decode_loop st rest (result @ [Some k]))"
    if "k \<in> set ks" for k
    using built_decodes [OF assms(1,2), of k self] that assms(3) unfolding st_def by blast
  from decode_loop_codes [OF this] obtain codes where
    codes: "map (code_table st) ks = map Some codes"
    "\<And>rest result. decode_loop st (concat codes @ rest) result =
        decode_loop st rest (result @ map Some ks)"
    by blast
  have "fst (decode_text st (concat codes @ rest)) =
      (case decode_loop st rest (map Some ks) of (Inl e, s) \<Rightarrow> Inl e
       | (Inr result, s) \<Rightarrow> join result)" for rest
    by (simp add: decode_text_def r codes(2) [of rest "[]", simplified] split: prod.splits sum.splits)
  with codes(1) show ?thesis
    unfolding st_def by blast
qed


section \<open>Feeding bits one at a time\<close>

lemma decode_loop_feed_bits:
  "decode_loop st bitstring result =
     (case feed_bits st bitstring of
        (results, st') \<Rightarrow>
          (case first_error results of
             Some e \<Rightarrow> Inl e
           | None \<Rightarrow> Inr (result @ complete_results results), st'))"
proof (induction bitstring arbitrary: st result)
  case Nil
  show ?case by simp
next
  case (Cons b bs)
  show ?case
  proof (cases "decode st [b]")
    case (Pair res st1)
    show ?thesis
    proof (cases res)
      case (Inl e)
      with Pair show ?thesis by simp
    next
      case (Inr r)
      obtain ok c where r: "r = (ok, c)" by (cases r)
      obtain results st2 where f: "feed_bits st1 bs = (results, st2)"
        by (cases "feed_bits st1 bs")
      show ?thesis
        using Pair Inr r f Cons.IH [of st1]
        by (cases ok) (auto split: option.splits)
    qed
  qed
qed

text \<open>
  The cursor of a usable decoder: the root is a leaf, or the cursor is at an inner node.
\<close>

lemma decode_inner_cursor:
  assumes "root st = Some rt" "\<not> is_leaf rt" "current_node st = Some (Internal f l r)"
    and "b = CHR ''0'' \<or> b = CHR ''1''"
  shows "\<exists>res f' l' r'. decode st [b] = (Inr res, st\<lparr>current_node := Some (Internal f' l' r')\<rparr>)"
proof -
  define n where "n = (if b = CHR ''0'' then l else r)"
  obtain f0 l0 r0 where rt: "rt = Internal f0 l0 r0"
    using assms(2) by (cases rt) auto
  show ?thesis
  proof (cases n)
    case (Leaf fn cn)
    then show ?thesis
      using decode_inner [OF assms] rt by (auto simp: Let_def n_def)
  next
    case (Internal fn ln rn)
    then show ?thesis
      using decode_inner [OF assms] by (auto simp: Let_def n_def)
  qed
qed

lemma feed_bits_inner_no_error:
  assumes "root st = Some rt" "\<not> is_leaf rt"
  shows "current_node st = Some (Internal f l r) \<Longrightarrow> set bitstring \<subseteq> {CHR ''0'', CHR ''1''} \<Longrightarrow>
         first_error (fst (feed_bits st bitstring)) = None"
  using assms
proof (induction bitstring arbitrary: st f l r)
  case Nil
  show ?case by simp
next
  case (Cons b bs)
  from Cons.prems(2) have b: "b = CHR ''0'' \<or> b = CHR ''1''" by auto
  from decode_inner_cursor [OF Cons.prems(3,4,1) b] obtain res f' l' r' where
    d: "decode st [b] = (Inr res, st\<lparr>current_node := Some (Internal f' l' r')\<rparr>)"
    by blast
  have "first_error (fst (feed_bits (st\<lparr>current_node := Some (Internal f' l' r')\<rparr>) bs)) = None"
    using Cons.prems by (intro Cons.IH [of _ f' l' r']) simp_all
  with d show ?case
    by (cases "feed_bits (st\<lparr>current_node := Some (Internal f' l' r')\<rparr>) bs") simp_all
qed

lemma feed_bits_leaf_no_error:
  assumes "root st = Some rt" "is_leaf rt"
  shows "set bitstring \<subseteq> {CHR ''0'', CHR ''1''} \<Longrightarrow>
         first_error (fst (feed_bits st bitstring)) = None"
  using assms
proof (induction bitstring arbitrary: st)
  case Nil
  show ?case by simp
next
  case (Cons b bs)
  from Cons.prems(1) have b: "[b] \<in> {''0'', ''1''}" by auto
  obtain st1 where d: "decode st [b] = (Inr (True, char rt), st1)" and "root st1 = Some rt"
    using b Cons.prems(2,3) by (auto simp: decode_def Let_def)
  then have "first_error (fst (feed_bits st1 bs)) = None"
    using Cons.prems by (intro Cons.IH) simp_all
  with d show ?case
    by (cases "feed_bits st1 bs") simp_all
qed

lemma feed_bits_built_no_error:
  assumes "fd \<noteq> []" "set bitstring \<subseteq> {CHR ''0'', CHR ''1''}"
  shows "first_error (fst (feed_bits (snd (build_from_frequencies self fd)) bitstring)) = None"
proof (cases "2 \<le> length fd")
  case True
  from build_general [OF this, of self] obtain n where
    b: "build_from_frequencies self fd =
          (Inr (), self\<lparr>root := Some n, current_node := Some n,
                        code_table := traverse n [] Map.empty\<rparr>)"
    and l: "mset (leaves n) = mset fd"
    by blast
  from l have "length (leaves n) = length fd"
    by (metis size_mset)
  with True obtain f l' r where n: "n = Internal f l' r"
    using leaves_two by metis
  show ?thesis
    unfolding b n snd_conv
    by (rule feed_bits_inner_no_error [where rt = "Internal f l' r" and f = f and l = l' and r = r])
       (simp_all add: assms(2))
next
  case False
  from assms(1) have "length fd \<noteq> 0" by simp
  with False have "length fd = Suc 0" by linarith
  then obtain c f where fd: "fd = [(c, f)]"
    by (cases fd) auto
  show ?thesis
    unfolding fd build_single snd_conv
    by (rule feed_bits_leaf_no_error [where rt = "Leaf f c"]) (simp_all add: assms(2))
qed


section \<open>The build does not read the instance\<close>

lemma build_general_all:
  assumes "2 \<le> length fd"
  shows "\<exists>n. \<forall>self. build_from_frequencies self fd =
               (Inr (), self\<lparr>root := Some n, current_node := Some n,
                             code_table := traverse n [] Map.empty\<rparr>)"
proof -
  define pq where "pq = heapify (map (\<lambda>(c, f). Leaf f c) fd)"
  have "mset pq = mset (map (\<lambda>(c, f). Leaf f c) fd)"
    by (simp add: pq_def mset_heapify)
  then have "length pq = length fd"
    by (metis length_map size_mset)
  with assms have "pq \<noteq> []" by auto
  from merge_loop_result [OF this] obtain n where n: "merge_loop pq = Inr [n]"
    by blast
  from assms obtain a b fd' where "fd = a # b # fd'"
    by (cases fd; cases "tl fd") auto
  then have "build_from_frequencies self fd =
      (Inr (), self\<lparr>root := Some n, current_node := Some n,
                    code_table := traverse n [] Map.empty\<rparr>)" for self
    using n unfolding pq_def
    by (simp add: build_from_frequencies_def build_code_table_def Let_def split: prod.splits)
  then show ?thesis by blast
qed


section \<open>Decoding changes the cursor only\<close>

lemma decode_frame:
  "root (snd (decode st b)) = root st \<and> code_table (snd (decode st b)) = code_table st"
  by (simp add: decode_def Let_def split: option.splits)

lemma decode_loop_frame:
  "root (snd (decode_loop st bitstring result)) = root st \<and>
   code_table (snd (decode_loop st bitstring result)) = code_table st"
proof (induction bitstring arbitrary: st result)
  case Nil
  show ?case by simp
next
  case (Cons b bs)
  obtain res st1 where d: "decode st [b] = (res, st1)"
    by (cases "decode st [b]")
  with decode_frame [of st "[b]"] have f: "root st1 = root st" "code_table st1 = code_table st"
    by simp_all
  show ?case
  proof (cases res)
    case (Inl e)
    with d f show ?thesis by simp
  next
    case (Inr r)
    obtain ok c where "r = (ok, c)" by (cases r)
    with d Inr f Cons.IH [of st1] show ?thesis by simp
  qed
qed

lemma decode_text_frame:
  "snd (decode_text st bitstring) =
     st\<lparr>current_node := current_node (snd (decode_text st bitstring))\<rparr>"
proof -
  obtain res st1 where d: "decode_loop (reset_decoder st) bitstring [] = (res, st1)"
    by (cases "decode_loop (reset_decoder st) bitstring []")
  with decode_loop_frame [of "reset_decoder st" bitstring "[]"]
  have f: "root st1 = root st" "code_table st1 = code_table st"
    by (simp_all add: reset_decoder_def)
  have s: "snd (decode_text st bitstring) = st1"
    using d by (cases res) (simp_all add: decode_text_def)
  show ?thesis
    unfolding s by (rule huffman_tree.equality) (simp_all add: f)
qed


section \<open>The properties of the specification\<close>

text \<open>
  C1 (round trip). Let the tree be built from a non-empty frequency mapping (the keys of a
  dictionary are distinct) and let every character of \<open>text\<close> be a symbol of the mapping.
  Then \<^verbatim>\<open>encode_text(text)\<close> succeeds, and \<^verbatim>\<open>decode_text\<close> of its result returns \<open>text\<close>; so it
  does wherever the cursor stood before, since \<^verbatim>\<open>decode_text\<close> resets it first.
\<close>

theorem round_trip:
  assumes "distinct (map fst freq_dict)" and "freq_dict \<noteq> []"
    and "\<forall>c \<in> set text. [c] \<in> fst ` set freq_dict"
  shows "\<exists>bitstring.
           encode_text (snd (build_from_frequencies self freq_dict)) text = Inr bitstring \<and>
           fst (decode_text (snd (build_from_frequencies self freq_dict)) bitstring) = Inr text \<and>
           (\<forall>cur. fst (decode_text
                         ((snd (build_from_frequencies self freq_dict))\<lparr>current_node := cur\<rparr>)
                         bitstring) = Inr text)"
proof -
  define st where "st = snd (build_from_frequencies self freq_dict)"
  have "set (map (\<lambda>c. [c]) text) \<subseteq> fst ` set freq_dict"
    using assms(3) by auto
  from built_decode_text [OF assms(1,2) this, of self] obtain codes where
    codes: "map (code_table st) (map (\<lambda>c. [c]) text) = map Some codes"
    and dec: "\<And>rest. fst (decode_text st (concat codes @ rest)) =
       (case decode_loop st rest (map Some (map (\<lambda>c. [c]) text)) of
          (Inl e, s) \<Rightarrow> Inl e
        | (Inr result, s) \<Rightarrow> join result)"
    unfolding st_def by blast
  have enc: "encode_text st text = Inr (concat codes)"
    using codes by (rule encode_text_codes)
  have j: "join (map Some (map (\<lambda>c. [c]) text)) = Inr text"
    by (simp only: join_Some concat_singletons)
  have "fst (decode_text st (concat codes @ [])) = join (map Some (map (\<lambda>c. [c]) text))"
    by (subst dec) simp
  with j have "fst (decode_text st (concat codes)) = Inr text"
    by simp
  with enc show ?thesis
    unfolding st_def [symmetric] by (simp add: decode_text_any_cursor)
qed

theorem round_trip_witness:
  "distinct (map fst [(''M'', 1 :: int), (''I'', 4), (''S'', 4), (''P'', 2)]) \<and>
   [(''M'', 1 :: int), (''I'', 4), (''S'', 4), (''P'', 2)] \<noteq> [] \<and>
   build_from_text init ''MISSISSIPPI'' =
     build_from_frequencies init [(''M'', 1), (''I'', 4), (''S'', 4), (''P'', 2)] \<and>
   encode_text (snd (build_from_frequencies init [(''M'', 1), (''I'', 4), (''S'', 4), (''P'', 2)]))
     ''MISSISSIPPI'' = Inr ''100011110111101011010'' \<and>
   fst (decode_text (snd (build_from_frequencies init [(''M'', 1), (''I'', 4), (''S'', 4), (''P'', 2)]))
          ''100011110111101011010'') = Inr ''MISSISSIPPI''"
proof -
  have fromtext: "build_from_text init ''MISSISSIPPI'' =
      build_from_frequencies init [(''M'', 1), (''I'', 4), (''S'', 4), (''P'', 2)]"
    by (simp add: build_from_text_def)
  have enc: "encode_text
      (snd (build_from_frequencies init [(''M'', 1), (''I'', 4), (''S'', 4), (''P'', 2)]))
      ''MISSISSIPPI'' = Inr ''100011110111101011010''"
    by code_simp
  have "\<forall>c \<in> set ''MISSISSIPPI''.
      [c] \<in> fst ` set [(''M'', 1 :: int), (''I'', 4), (''S'', 4), (''P'', 2)]"
    by simp
  from round_trip [OF _ _ this, of init] enc fromtext show ?thesis
    by simp
qed

text \<open>
  C2 (prefix-free code table). When the frequency mapping has at least two entries (the
  keys of a dictionary are distinct), the build succeeds and the code table has exactly
  the symbols of the mapping as its keys; the code of each symbol is a non-empty string
  over \<^verbatim>\<open>'0'\<close> and \<^verbatim>\<open>'1'\<close>, and it is neither a prefix of the code of another symbol nor has
  the code of another symbol as a prefix.
\<close>

theorem code_table_prefix_free:
  assumes "distinct (map fst freq_dict)" and "2 \<le> length freq_dict"
  shows "fst (build_from_frequencies self freq_dict) = Inr () \<and>
         dom (code_table (snd (build_from_frequencies self freq_dict))) = fst ` set freq_dict \<and>
         (\<forall>c \<in> fst ` set freq_dict.
            \<exists>code. code_table (snd (build_from_frequencies self freq_dict)) c = Some code \<and>
                   code \<noteq> [] \<and> set code \<subseteq> {CHR ''0'', CHR ''1''} \<and>
                   (\<forall>c' code'. c' \<noteq> c \<longrightarrow>
                      code_table (snd (build_from_frequencies self freq_dict)) c' = Some code' \<longrightarrow>
                      \<not> prefix code code' \<and> \<not> prefix code' code))"
proof -
  from build_two [OF assms, of self] obtain f l r where
    b: "build_from_frequencies self freq_dict =
          (Inr (), self\<lparr>root := Some (Internal f l r), current_node := Some (Internal f l r),
                        code_table := map_of (paths (Internal f l r))\<rparr>)"
    and lv: "mset (leaves (Internal f l r)) = mset freq_dict"
    and d: "distinct (map fst (paths (Internal f l r)))"
    by blast
  define n where "n = Internal f l r"
  have t: "code_table (snd (build_from_frequencies self freq_dict)) = map_of (paths n)"
    by (simp add: b n_def)
  have "set (leaves n) = set freq_dict"
    using lv unfolding n_def by (rule mset_eq_setD)
  then have keys: "fst ` set (paths n) = fst ` set freq_dict"
    by (metis fst_paths list.set_map)
  have dom: "dom (map_of (paths n)) = fst ` set freq_dict"
    by (simp add: dom_map_of_conv_image_fst keys)
  have each: "\<exists>code. map_of (paths n) c = Some code \<and> code \<noteq> [] \<and>
        set code \<subseteq> {CHR ''0'', CHR ''1''} \<and>
        (\<forall>c' code'. c' \<noteq> c \<longrightarrow> map_of (paths n) c' = Some code' \<longrightarrow>
           \<not> prefix code code' \<and> \<not> prefix code' code)"
    if "c \<in> fst ` set freq_dict" for c
  proof -
    from that dom obtain code where code: "map_of (paths n) c = Some code"
      by blast
    then have m: "(c, code) \<in> set (paths n)"
      by (rule map_of_SomeD)
    have "code \<noteq> []"
      using m paths_nonempty unfolding n_def by blast
    moreover have "set code \<subseteq> {CHR ''0'', CHR ''1''}"
      using m by (rule paths_bits)
    moreover have "\<not> prefix code code' \<and> \<not> prefix code' code"
      if "c' \<noteq> c" "map_of (paths n) c' = Some code'" for c' code'
      using paths_prefix [OF m map_of_SomeD [OF that(2)]]
        paths_prefix [OF map_of_SomeD [OF that(2)] m] that(1) by blast
    ultimately show ?thesis using code by blast
  qed
  show ?thesis
    unfolding t using b dom each by simp
qed

theorem code_table_prefix_free_witness:
  "distinct (map fst [(''a'', 1 :: int), (''b'', 2), (''c'', 2)]) \<and>
   2 \<le> length [(''a'', 1 :: int), (''b'', 2), (''c'', 2)] \<and>
   fst (build_from_frequencies init [(''a'', 1), (''b'', 2), (''c'', 2)]) = Inr () \<and>
   (\<exists>code. code_table (snd (build_from_frequencies init [(''a'', 1), (''b'', 2), (''c'', 2)])) ''a''
             = Some code \<and>
          code \<noteq> [] \<and> set code \<subseteq> {CHR ''0'', CHR ''1''} \<and>
          (\<forall>c' code'. c' \<noteq> ''a'' \<longrightarrow>
             code_table (snd (build_from_frequencies init [(''a'', 1), (''b'', 2), (''c'', 2)])) c'
               = Some code' \<longrightarrow>
             \<not> prefix code code' \<and> \<not> prefix code' code))"
  using code_table_prefix_free [of "[(''a'', 1), (''b'', 2), (''c'', 2)]" init]
  by simp

text \<open>
  C3 (frequency conservation). \<^verbatim>\<open>build_from_frequencies\<close> succeeds on every non-empty
  mapping; in the tree it stores as the root, every inner node has the sum of the
  frequencies of its two children as its frequency, and the frequency of the root is the
  sum of all counts of the mapping.
\<close>

theorem build_frequency_conservation:
  assumes "freq_dict \<noteq> []"
  shows "fst (build_from_frequencies self freq_dict) = Inr () \<and>
         (\<exists>n. root (snd (build_from_frequencies self freq_dict)) = Some n \<and>
              consistent n \<and> freq n = sum_list (map snd freq_dict))"
proof (cases "2 \<le> length freq_dict")
  case True
  from build_general [OF this, of self] obtain n where
    b: "build_from_frequencies self freq_dict =
          (Inr (), self\<lparr>root := Some n, current_node := Some n,
                        code_table := traverse n [] Map.empty\<rparr>)"
    and l: "mset (leaves n) = mset freq_dict" and c: "consistent n"
    by blast
  have "freq n = sum_list (map snd freq_dict)"
    using freq_consistent [OF c] sum_list_mset_cong [OF l] by simp
  with b c show ?thesis by simp
next
  case False
  from assms have "length freq_dict \<noteq> 0" by simp
  with False have "length freq_dict = Suc 0" by linarith
  then obtain c f where "freq_dict = [(c, f)]"
    by (cases freq_dict) auto
  then show ?thesis by (simp add: build_single)
qed

theorem build_frequency_conservation_witness:
  "[(''a'', 1), (''b'', 2), (''c'', 2 :: int)] \<noteq> [] \<and>
   fst (build_from_frequencies init [(''a'', 1), (''b'', 2), (''c'', 2)]) = Inr () \<and>
   (\<exists>n. root (snd (build_from_frequencies init [(''a'', 1), (''b'', 2), (''c'', 2)])) = Some n \<and>
        consistent n \<and> freq n = 5)"
  using build_frequency_conservation [of "[(''a'', 1), (''b'', 2), (''c'', 2)]" init]
  by simp

text \<open>
  C4 (single symbol). Building from a mapping with the one entry \<open>(c, f)\<close> succeeds; the root
  is the leaf of \<open>c\<close> (no inner node), the code table has the one entry \<open>c \<mapsto> ''0''\<close>, the
  cursor is at the root, and from then on every call of \<^verbatim>\<open>decode\<close> with \<^verbatim>\<open>'0'\<close> or \<^verbatim>\<open>'1'\<close>
  returns \<open>(True, c)\<close> and leaves the instance, its cursor included, as it was; so does
  every sequence of such calls.
\<close>

theorem single_symbol_build:
  "let st = snd (build_from_frequencies self [(c, f)]) in
     fst (build_from_frequencies self [(c, f)]) = Inr () \<and>
     root st = Some (Leaf f c) \<and>
     code_table st = [c \<mapsto> ''0''] \<and>
     current_node st = Some (Leaf f c) \<and>
     (\<forall>bit' \<in> {''0'', ''1''}. decode st bit' = (Inr (True, Some c), st)) \<and>
     (\<forall>bitstring result. set bitstring \<subseteq> {CHR ''0'', CHR ''1''} \<longrightarrow>
        decode_loop st bitstring result =
          (Inr (result @ replicate (length bitstring) (Some c)), st))"
proof -
  define st where "st = self\<lparr>root := Some (Leaf f c), code_table := [c \<mapsto> ''0''],
                               current_node := Some (Leaf f c)\<rparr>"
  have b: "build_from_frequencies self [(c, f)] = (Inr (), st)"
    by (simp add: build_single st_def)
  have dec: "decode st bit' = (Inr (True, Some c), st)" if "bit' \<in> {''0'', ''1''}" for bit'
    using that by (auto simp: decode_def st_def is_leaf_def)
  have "decode_loop st bitstring result =
          (Inr (result @ replicate (length bitstring) (Some c)), st)"
    if "set bitstring \<subseteq> {CHR ''0'', CHR ''1''}" for bitstring result
    using that
  proof (induction bitstring arbitrary: result)
    case Nil
    then show ?case by simp
  next
    case (Cons b bs)
    then have "decode st [b] = (Inr (True, Some c), st)"
      by (intro dec) auto
    with Cons show ?case
      by (simp add: replicate_app_Cons_same)
  qed
  with b dec show ?thesis
    by (simp add: st_def)
qed

theorem single_symbol_build_witness:
  "fst (build_from_frequencies init [(''A'', 1)]) = Inr () \<and>
   root (snd (build_from_frequencies init [(''A'', 1)])) = Some (Leaf 1 ''A'') \<and>
   code_table (snd (build_from_frequencies init [(''A'', 1)])) = [''A'' \<mapsto> ''0''] \<and>
   decode (snd (build_from_frequencies init [(''A'', 1)])) ''0'' =
     (Inr (True, Some ''A''), snd (build_from_frequencies init [(''A'', 1)])) \<and>
   decode (snd (build_from_frequencies init [(''A'', 1)])) ''1'' =
     (Inr (True, Some ''A''), snd (build_from_frequencies init [(''A'', 1)])) \<and>
   decode_loop (snd (build_from_frequencies init [(''A'', 1)])) ''0110'' [] =
     (Inr [Some ''A'', Some ''A'', Some ''A'', Some ''A''],
      snd (build_from_frequencies init [(''A'', 1)]))"
  using single_symbol_build [of init "''A''" 1]
  by (simp add: Let_def)

text \<open>
  C5 as stated fails for \<^verbatim>\<open>encode\<close>: on an instance on which no tree has been built,
  \<^verbatim>\<open>encode\<close> looks the symbol up in the empty code table and fails with the error of an
  unknown symbol, not with \<open>UninitializedTree\<close>.
\<close>

theorem encode_unbuilt_counterexample:
  "encode init ''a'' \<noteq> Inl UninitializedTree \<and> encode init ''a'' = Inl UnknownSymbol"
  by (simp add: encode_def init_def)

text \<open>
  C5, amended. On an instance on which no tree has been built, \<^verbatim>\<open>encode\<close> of any symbol
  (and \<^verbatim>\<open>encode_text\<close> of any non-empty text) fails with \<open>UnknownSymbol\<close>, and \<^verbatim>\<open>decode\<close> of
  \<^verbatim>\<open>'0'\<close> or \<^verbatim>\<open>'1'\<close> fails with \<open>UninitializedTree\<close> and leaves the instance as it was.
\<close>

theorem unbuilt_instance_errors:
  "encode init c = Inl UnknownSymbol \<and>
   encode_text init (c' # text) = Inl UnknownSymbol \<and>
   (\<forall>bit' \<in> {''0'', ''1''}. decode init bit' = (Inl UninitializedTree, init))"
  by (simp add: encode_def decode_def init_def)

theorem unbuilt_instance_errors_witness:
  "encode init ''a'' = Inl UnknownSymbol \<and>
   encode_text init ''ab'' = Inl UnknownSymbol \<and>
   decode init ''0'' = (Inl UninitializedTree, init) \<and>
   decode init ''1'' = (Inl UninitializedTree, init)"
  using unbuilt_instance_errors [of "''a''" "CHR ''a''" "''b''"] by simp

text \<open>
  C6 (invalid bit). For every instance, built or not, and every argument other than \<^verbatim>\<open>'0'\<close>
  and \<^verbatim>\<open>'1'\<close>, \<^verbatim>\<open>decode\<close> fails with \<open>InvalidInput\<close> and leaves the instance (tree, code table
  and cursor) as it was; any call of \<^verbatim>\<open>decode\<close> after the failed one gives what it would
  have given without it.
\<close>

theorem decode_invalid_bit:
  assumes "bit' \<notin> {''0'', ''1''}"
  shows "decode st bit' = (Inl InvalidInput, st) \<and>
         decode (snd (decode st bit')) b = decode st b"
  using assms by (simp add: decode_def)

theorem decode_invalid_bit_witness:
  "''2'' \<notin> {''0'', ''1''} \<and>
   current_node (snd (decode (snd (build_from_frequencies init [(''a'', 1), (''b'', 2), (''c'', 2)])) ''1''))
     = Some (Internal 3 (Leaf 1 ''a'') (Leaf 2 ''b'')) \<and>
   decode (snd (decode (snd (build_from_frequencies init [(''a'', 1), (''b'', 2), (''c'', 2)])) ''1'')) ''2''
     = (Inl InvalidInput,
        snd (decode (snd (build_from_frequencies init [(''a'', 1), (''b'', 2), (''c'', 2)])) ''1'')) \<and>
   fst (decode (snd (decode (snd (decode
          (snd (build_from_frequencies init [(''a'', 1), (''b'', 2), (''c'', 2)])) ''1'')) ''2'')) ''0'')
     = Inr (True, Some ''a'')"
proof -
  define st where
    "st = snd (decode (snd (build_from_frequencies init [(''a'', 1), (''b'', 2), (''c'', 2)])) ''1'')"
  have c: "current_node st = Some (Internal 3 (Leaf 1 ''a'') (Leaf 2 ''b''))"
    unfolding st_def by code_simp
  have d: "fst (decode st ''0'') = Inr (True, Some ''a'')"
    unfolding st_def by code_simp
  have n: "''2'' \<notin> {''0'', ''1''}" by simp
  from decode_invalid_bit [OF n, of st "''0''"] c d n show ?thesis
    unfolding st_def by simp
qed

text \<open>
  C7 (incremental decoding). For every instance and every string, one call of \<^verbatim>\<open>decode_text\<close>
  gives what resetting the decoder and feeding the characters one at a time to \<^verbatim>\<open>decode\<close>
  gives: the same error if a call raises, and otherwise the symbols of the results
  \<open>(True, c)\<close> in order, joined as \<^verbatim>\<open>decode_text\<close> joins them, with the same instance
  afterwards. With a built tree and a string of \<^verbatim>\<open>'0'\<close> and \<^verbatim>\<open>'1'\<close> no call raises.
\<close>

theorem incremental_decode_equivalence:
  "decode_text st bitstring =
     (case feed_bits (reset_decoder st) bitstring of
        (results, st') \<Rightarrow>
          (case first_error results of
             Some e \<Rightarrow> Inl e
           | None \<Rightarrow> join (complete_results results), st')) \<and>
   (freq_dict \<noteq> [] \<longrightarrow> set bitstring \<subseteq> {CHR ''0'', CHR ''1''} \<longrightarrow>
    st = snd (build_from_frequencies self freq_dict) \<longrightarrow>
      first_error (fst (feed_bits (reset_decoder st) bitstring)) = None \<and>
      fst (decode_text st bitstring) =
        join (complete_results (fst (feed_bits (reset_decoder st) bitstring))))"
proof -
  have eq: "decode_text st bitstring =
     (case feed_bits (reset_decoder st) bitstring of
        (results, st') \<Rightarrow>
          (case first_error results of
             Some e \<Rightarrow> Inl e
           | None \<Rightarrow> join (complete_results results), st'))"
    by (simp add: decode_text_def decode_loop_feed_bits split: prod.splits option.splits)
  have "first_error (fst (feed_bits (reset_decoder st) bitstring)) = None"
    if "freq_dict \<noteq> []" "set bitstring \<subseteq> {CHR ''0'', CHR ''1''}"
      "st = snd (build_from_frequencies self freq_dict)"
    using feed_bits_built_no_error [OF that(1,2), of self] reset_built [OF that(1), of self]
    by (simp add: that(3))
  then show ?thesis
    using eq by (auto split: prod.splits)
qed

theorem incremental_decode_equivalence_witness:
  "fst (feed_bits (reset_decoder (snd (build_from_frequencies init [(''a'', 1), (''b'', 2), (''c'', 2)])))
          ''0101'') =
     [Inr (True, Some ''c''), Inr (False, None), Inr (True, Some ''a''), Inr (False, None)] \<and>
   fst (decode_text (snd (build_from_frequencies init [(''a'', 1), (''b'', 2), (''c'', 2)])) ''0101'')
     = Inr ''ca''"
proof -
  define st where "st = snd (build_from_frequencies init [(''a'', 1), (''b'', 2), (''c'', 2)])"
  have f: "fst (feed_bits (reset_decoder st) ''0101'') =
      [Inr (True, Some ''c''), Inr (False, None), Inr (True, Some ''a''), Inr (False, None)]"
    unfolding st_def by code_simp
  note equiv = incremental_decode_equivalence
    [of st "''0101''" "[(''a'', 1), (''b'', 2), (''c'', 2)]" init, THEN conjunct2, rule_format]
  have eq: "fst (decode_text st ''0101'') =
      join (complete_results (fst (feed_bits (reset_decoder st) ''0101'')))"
    by (rule equiv [THEN conjunct2]) (simp_all add: st_def)
  have res: "fst (decode_text st ''0101'') = Inr ''ca''"
    unfolding eq f by simp
  show ?thesis
    unfolding st_def [symmetric] by (rule conjI [OF f res])
qed

text \<open>
  C8 (determinism). The outcome of \<^verbatim>\<open>build_from_frequencies\<close> is a function of the items of
  the mapping in insertion order alone: two instances, whatever they held before, report
  the same result, and for a non-empty mapping they hold the same tree, the same code
  table and the same cursor afterwards. Nodes of equal frequency are ordered by
  \<^verbatim>\<open>heapq\<close>, which compares with \<^verbatim>\<open>Node.__lt__\<close> only; nothing else is consulted.
\<close>

theorem build_deterministic:
  "fst (build_from_frequencies self1 freq_dict) = fst (build_from_frequencies self2 freq_dict) \<and>
   (freq_dict \<noteq> [] \<longrightarrow>
      snd (build_from_frequencies self1 freq_dict) = snd (build_from_frequencies self2 freq_dict))"
proof (cases "2 \<le> length freq_dict")
  case True
  from build_general_all [OF this] obtain n where
    "\<And>self. build_from_frequencies self freq_dict =
               (Inr (), self\<lparr>root := Some n, current_node := Some n,
                             code_table := traverse n [] Map.empty\<rparr>)"
    by blast
  then show ?thesis
    by (cases self1; cases self2) simp
next
  case False
  show ?thesis
  proof (cases freq_dict)
    case Nil
    then show ?thesis by (simp add: build_from_frequencies_def)
  next
    case (Cons a fd')
    with False have "fd' = []" by (cases fd') auto
    with Cons show ?thesis
      by (cases a; cases self1; cases self2) (simp add: build_single)
  qed
qed

theorem build_deterministic_witness:
  "[(''a'', 1 :: int), (''b'', 1), (''c'', 1), (''d'', 1)] \<noteq> [] \<and>
   snd (build_from_frequencies init [(''a'', 1), (''b'', 1), (''c'', 1), (''d'', 1)]) =
   snd (build_from_frequencies (snd (build_from_frequencies init [(''x'', 7), (''a'', 2)]))
          [(''a'', 1), (''b'', 1), (''c'', 1), (''d'', 1)]) \<and>
   map (code_table (snd (build_from_frequencies init [(''a'', 1), (''b'', 1), (''c'', 1), (''d'', 1)])))
     [''a'', ''b'', ''c'', ''d'', ''x''] = [Some ''01'', Some ''11'', Some ''00'', Some ''10'', None]"
proof -
  have t: "map (code_table (snd (build_from_frequencies init
        [(''a'', 1), (''b'', 1), (''c'', 1), (''d'', 1)])))
     [''a'', ''b'', ''c'', ''d'', ''x''] = [Some ''01'', Some ''11'', Some ''00'', Some ''10'', None]"
    by code_simp
  from build_deterministic [of init "[(''a'', 1), (''b'', 1), (''c'', 1), (''d'', 1)]"
      "snd (build_from_frequencies init [(''x'', 7), (''a'', 2)])"] t
  show ?thesis by simp
qed

text \<open>
  C9 (the returned code table is a copy). Let the reference in \<^verbatim>\<open>self.code_table\<close> refer to
  a dictionary of the store. \<^verbatim>\<open>get_code_table\<close> returns a reference to another dictionary
  object, which has the items of the instance's code table, and leaves the instance as it
  was. Whatever the caller then does to the returned dictionary, the instance's code table
  is unchanged: \<^verbatim>\<open>encode\<close> gives what it gave before, and a later \<^verbatim>\<open>get_code_table\<close> returns
  the same items again.
\<close>

theorem get_code_table_copy:
  assumes "self_code_table s < length (dicts s)"
  shows "dicts (snd (get_code_table s)) ! fst (get_code_table s) = code_table (view s) \<and>
         fst (get_code_table s) \<noteq> self_code_table (snd (get_code_table s)) \<and>
         view (snd (get_code_table s)) = view s \<and>
         view (dict_mutate (snd (get_code_table s)) (fst (get_code_table s)) g) = view s \<and>
         encode (view (dict_mutate (snd (get_code_table s)) (fst (get_code_table s)) g)) c =
           encode (view s) c \<and>
         dicts (snd (get_code_table
                  (dict_mutate (snd (get_code_table s)) (fst (get_code_table s)) g))) !
           fst (get_code_table (dict_mutate (snd (get_code_table s)) (fst (get_code_table s)) g))
           = code_table (view s)"
  using assms
  by (simp add: get_code_table_def dict_mutate_def view_def nth_append)

theorem get_code_table_copy_witness:
  "self_code_table (new_object (snd (build_from_frequencies init [(''a'', 1), (''b'', 2), (''c'', 2)])))
     < length (dicts (new_object (snd (build_from_frequencies init [(''a'', 1), (''b'', 2), (''c'', 2)])))) \<and>
   encode (view (new_object (snd (build_from_frequencies init [(''a'', 1), (''b'', 2), (''c'', 2)])))) ''a''
     = Inr ''10'' \<and>
   (dicts (dict_mutate
       (snd (get_code_table
          (new_object (snd (build_from_frequencies init [(''a'', 1), (''b'', 2), (''c'', 2)])))))
       (fst (get_code_table
          (new_object (snd (build_from_frequencies init [(''a'', 1), (''b'', 2), (''c'', 2)])))))
       (\<lambda>d. d(''a'' \<mapsto> ''111''))) !
     fst (get_code_table
          (new_object (snd (build_from_frequencies init [(''a'', 1), (''b'', 2), (''c'', 2)])))))
     ''a'' = Some ''111'' \<and>
   encode (view (dict_mutate
       (snd (get_code_table
          (new_object (snd (build_from_frequencies init [(''a'', 1), (''b'', 2), (''c'', 2)])))))
       (fst (get_code_table
          (new_object (snd (build_from_frequencies init [(''a'', 1), (''b'', 2), (''c'', 2)])))))
       (\<lambda>d. d(''a'' \<mapsto> ''111'')))) ''a''
     = Inr ''10''"
proof -
  define s where
    "s = new_object (snd (build_from_frequencies init [(''a'', 1), (''b'', 2), (''c'', 2)]))"
  have v: "self_code_table s < length (dicts s)"
    by (simp add: s_def new_object_def)
  have e: "encode (view s) ''a'' = Inr ''10''"
    unfolding s_def by code_simp
  have m: "(dicts (dict_mutate (snd (get_code_table s)) (fst (get_code_table s))
                (\<lambda>d. d(''a'' \<mapsto> ''111''))) ! fst (get_code_table s)) ''a'' = Some ''111''"
    by (simp add: get_code_table_def dict_mutate_def)
  from get_code_table_copy [OF v, of "\<lambda>d. d(''a'' \<mapsto> ''111'')" "''a''"] e
  have "encode (view (dict_mutate (snd (get_code_table s)) (fst (get_code_table s))
                  (\<lambda>d. d(''a'' \<mapsto> ''111'')))) ''a'' = Inr ''10''"
    by simp
  with v e m show ?thesis
    unfolding s_def by blast
qed

text \<open>
  C10 (incomplete tail). Let the tree be built from a non-empty frequency mapping, \<open>ks\<close> be
  symbols of the mapping and \<open>p\<close> a strict prefix of the code of a symbol \<open>k\<close>. Then
  \<^verbatim>\<open>decode_text\<close> of the codes of \<open>ks\<close> followed by \<open>p\<close> does not fail: it returns the
  symbols \<open>ks\<close>, joined, and nothing for \<open>p\<close>. The empty bit string decodes to the empty
  string. This holds wherever the cursor of the instance stands, at the root as the build
  leaves it or inside the tree, and so also after any earlier call of \<^verbatim>\<open>decode_text\<close>, which
  may have left the cursor inside the tree.
\<close>

theorem decode_text_incomplete_tail:
  assumes "distinct (map fst freq_dict)" and "freq_dict \<noteq> []"
    and "set ks \<subseteq> fst ` set freq_dict" and "k \<in> fst ` set freq_dict"
  shows "\<exists>codes code.
           map (code_table (snd (build_from_frequencies self freq_dict))) ks = map Some codes \<and>
           code_table (snd (build_from_frequencies self freq_dict)) k = Some code \<and>
           (\<forall>p. strict_prefix p code \<longrightarrow>
              fst (decode_text (snd (build_from_frequencies self freq_dict)) (concat codes @ p))
                = Inr (concat ks)) \<and>
           fst (decode_text (snd (build_from_frequencies self freq_dict)) []) = Inr [] \<and>
           (\<forall>p cur. strict_prefix p code \<longrightarrow>
              fst (decode_text
                     ((snd (build_from_frequencies self freq_dict))\<lparr>current_node := cur\<rparr>)
                     (concat codes @ p)) = Inr (concat ks)) \<and>
           (\<forall>cur. fst (decode_text
                         ((snd (build_from_frequencies self freq_dict))\<lparr>current_node := cur\<rparr>)
                         []) = Inr []) \<and>
           (\<forall>p earlier. strict_prefix p code \<longrightarrow>
              fst (decode_text
                     (snd (decode_text (snd (build_from_frequencies self freq_dict)) earlier))
                     (concat codes @ p)) = Inr (concat ks))"
proof -
  define st where "st = snd (build_from_frequencies self freq_dict)"
  from built_decode_text [OF assms(1,2,3), of self] obtain codes where
    codes: "map (code_table st) ks = map Some codes"
    and dec: "\<And>rest. fst (decode_text st (concat codes @ rest)) =
       (case decode_loop st rest (map Some ks) of
          (Inl e, s) \<Rightarrow> Inl e
        | (Inr result, s) \<Rightarrow> join result)"
    unfolding st_def by blast
  from built_decodes [OF assms(1,2,4), of self] obtain code where
    code: "code_table st k = Some code"
    and pre: "\<And>p result. strict_prefix p code \<Longrightarrow> fst (decode_loop st p result) = Inr result"
    unfolding st_def by blast
  have tail: "fst (decode_text st (concat codes @ p)) = Inr (concat ks)"
    if "strict_prefix p code" for p
    using pre [OF that, of "map Some ks"] dec [of p]
    by (cases "decode_loop st p (map Some ks)") (auto simp: join_Some)
  have empty: "fst (decode_text st []) = Inr []"
    by (simp add: decode_text_def)
  have later: "fst (decode_text (snd (decode_text st earlier)) (concat codes @ p)) =
      Inr (concat ks)" if "strict_prefix p code" for p earlier
    by (subst decode_text_frame) (simp only: decode_text_any_cursor tail [OF that])
  show ?thesis
    using codes code tail empty later unfolding st_def
    by (auto simp: decode_text_any_cursor)
qed

theorem decode_text_incomplete_tail_witness:
  "distinct (map fst [(''a'', 1 :: int), (''b'', 2), (''c'', 2)]) \<and>
   [(''a'', 1 :: int), (''b'', 2), (''c'', 2)] \<noteq> [] \<and>
   set [''a'', ''c''] \<subseteq> fst ` set [(''a'', 1 :: int), (''b'', 2), (''c'', 2)] \<and>
   ''b'' \<in> fst ` set [(''a'', 1 :: int), (''b'', 2), (''c'', 2)] \<and>
   strict_prefix ''1'' ''11'' \<and>
   fst (decode_text (snd (build_from_frequencies init [(''a'', 1), (''b'', 2), (''c'', 2)]))
          (''100'' @ ''1'')) = Inr ''ac'' \<and>
   fst (decode_text (snd (build_from_frequencies init [(''a'', 1), (''b'', 2), (''c'', 2)])) [])
     = Inr [] \<and>
   current_node (snd (decode_text
       (snd (build_from_frequencies init [(''a'', 1), (''b'', 2), (''c'', 2)])) ''1001''))
     = Some (Internal 3 (Leaf 1 ''a'') (Leaf 2 ''b'')) \<and>
   fst (decode_text
          (snd (decode_text
             (snd (build_from_frequencies init [(''a'', 1), (''b'', 2), (''c'', 2)])) ''1001''))
          (''100'' @ ''1'')) = Inr ''ac''"
proof -
  define st where "st = snd (build_from_frequencies init [(''a'', 1), (''b'', 2), (''c'', 2)])"
  have t: "code_table st ''a'' = Some ''10''" "code_table st ''c'' = Some ''0''"
    "code_table st ''b'' = Some ''11''"
    unfolding st_def by code_simp+
  have cur: "current_node (snd (decode_text st ''1001'')) =
      Some (Internal 3 (Leaf 1 ''a'') (Leaf 2 ''b''))"
    unfolding st_def by code_simp
  have sp: "strict_prefix ''1'' ''11''"
    by (simp add: strict_prefix_def)
  have "\<exists>codes code.
      map (code_table st) [''a'', ''c''] = map Some codes \<and>
      code_table st ''b'' = Some code \<and>
      (\<forall>p. strict_prefix p code \<longrightarrow>
         fst (decode_text st (concat codes @ p)) = Inr (concat [''a'', ''c''])) \<and>
      fst (decode_text st []) = Inr [] \<and>
      (\<forall>p cur. strict_prefix p code \<longrightarrow>
         fst (decode_text (st\<lparr>current_node := cur\<rparr>) (concat codes @ p))
           = Inr (concat [''a'', ''c''])) \<and>
      (\<forall>cur. fst (decode_text (st\<lparr>current_node := cur\<rparr>) []) = Inr []) \<and>
      (\<forall>p earlier. strict_prefix p code \<longrightarrow>
         fst (decode_text (snd (decode_text st earlier)) (concat codes @ p))
           = Inr (concat [''a'', ''c'']))"
    unfolding st_def by (rule decode_text_incomplete_tail) simp_all
  then obtain codes code where
    c: "map (code_table st) [''a'', ''c''] = map Some codes" "code_table st ''b'' = Some code"
    and pre: "\<And>p. strict_prefix p code \<Longrightarrow>
        fst (decode_text st (concat codes @ p)) = Inr (concat [''a'', ''c''])"
    and e: "fst (decode_text st []) = Inr []"
    and later: "\<And>p earlier. strict_prefix p code \<Longrightarrow>
        fst (decode_text (snd (decode_text st earlier)) (concat codes @ p))
          = Inr (concat [''a'', ''c''])"
    by blast
  from c t have cc: "codes = [''10'', ''0'']" "code = ''11''"
    by auto
  with pre [of "''1''"] sp have first: "fst (decode_text st (''100'' @ ''1'')) = Inr ''ac''"
    by simp
  from cc later [of "''1''" "''1001''"] sp
  have second: "fst (decode_text (snd (decode_text st ''1001'')) (''100'' @ ''1'')) = Inr ''ac''"
    by simp
  from sp e first cur second show ?thesis
    unfolding st_def by simp
qed

end
